theory Spec2Isabelle
  imports Complex_Main "HOL-Library.Multiset" "HOL-Library.Code_Target_Numeral"
begin

section \<open>Characters and strings\<close>

text \<open>
  A Python \<open>str\<close> is modelled as a \<open>string\<close> whose characters are the code points
  below 256 (ASCII and Latin-1).  Python floats are modelled as reals, and Python's
  unbounded integers as \<open>int\<close>.
\<close>

definition isspace :: "char \<Rightarrow> bool" where
  \<comment> \<open>\<open>str.isspace\<close>, the class \<open>\s\<close> of \<open>re\<close> and the separators of \<open>str.split()\<close>\<close>
  "isspace c = (of_char c \<in> {9::nat, 10, 11, 12, 13, 28, 29, 30, 31, 32, 133, 160})"

definition is_az :: "char \<Rightarrow> bool" where
  \<comment> \<open>the class \<open>[a-z]\<close>\<close>
  "is_az c = (97 \<le> (of_char c :: nat) \<and> (of_char c :: nat) \<le> 122)"

definition is_digit :: "char \<Rightarrow> bool" where
  \<comment> \<open>the class \<open>[0-9]\<close>\<close>
  "is_digit c = (48 \<le> (of_char c :: nat) \<and> (of_char c :: nat) \<le> 57)"

definition is_vowel :: "char \<Rightarrow> bool" where
  \<comment> \<open>the class \<open>[aeiouy]\<close>\<close>
  "is_vowel c = (c \<in> set ''aeiouy'')"

definition lower_char :: "char \<Rightarrow> char" where
  \<comment> \<open>\<open>str.lower\<close> on one code point below 256: A-Z and the Latin-1 capitals move up by 32\<close>
  "lower_char c =
     (let n = (of_char c :: nat)
      in if (65 \<le> n \<and> n \<le> 90) \<or> (192 \<le> n \<and> n \<le> 222 \<and> n \<noteq> 215)
         then char_of (n + 32) else c)"

definition lower :: "string \<Rightarrow> string" where
  "lower s = map lower_char s"

definition lstrip :: "string \<Rightarrow> string" where
  "lstrip s = dropWhile isspace s"

definition rstrip :: "string \<Rightarrow> string" where
  "rstrip s = rev (dropWhile isspace (rev s))"

definition strip :: "string \<Rightarrow> string" where
  \<comment> \<open>\<open>str.strip()\<close>\<close>
  "strip s = lstrip (rstrip s)"

fun split_acc :: "string \<Rightarrow> string \<Rightarrow> string list" where
  \<comment> \<open>scanning for \<open>str.split()\<close>: the word read so far, then the rest of the text\<close>
  "split_acc cur [] = (if cur = [] then [] else [cur])"
| "split_acc cur (c # cs) =
     (if isspace c then (if cur = [] then split_acc [] cs else cur # split_acc [] cs)
      else split_acc (cur @ [c]) cs)"

definition split :: "string \<Rightarrow> string list" where
  \<comment> \<open>\<open>text.split()\<close>: the maximal runs of non-whitespace characters\<close>
  "split s = split_acc [] s"

fun join :: "string \<Rightarrow> string list \<Rightarrow> string" where
  \<comment> \<open>\<open>sep.join(xs)\<close>\<close>
  "join sep [] = []"
| "join sep [x] = x"
| "join sep (x # y # ys) = x @ sep @ join sep (y # ys)"

definition endswith :: "string \<Rightarrow> string \<Rightarrow> bool" where
  "endswith s suffix = (length suffix \<le> length s \<and> drop (length s - length suffix) s = suffix)"

subsection \<open>The regular expressions of the scripts\<close>

definition search_az :: "string \<Rightarrow> bool" where
  \<comment> \<open>\<open>re.search(r'[a-z]', word)\<close>\<close>
  "search_az word = (\<exists>c \<in> set word. is_az c)"

definition ends_nonvowel_le :: "string \<Rightarrow> bool" where
  \<comment> \<open>the text ends with a character outside \<open>[aeiouy]\<close> followed by \<open>le\<close>\<close>
  "ends_nonvowel_le s =
     (case rev s of e # l # c # _ \<Rightarrow> e = CHR ''e'' \<and> l = CHR ''l'' \<and> \<not> is_vowel c | _ \<Rightarrow> False)"

definition search_nonvowel_le :: "string \<Rightarrow> bool" where
  \<comment> \<open>\<open>re.search(r'[^aeiouy]le$', word)\<close>; \<open>$\<close> matches at the end of the text and before
      a final newline\<close>
  "search_nonvowel_le word =
     (ends_nonvowel_le word \<or> (word \<noteq> [] \<and> last word = CHR 0x0A \<and> ends_nonvowel_le (butlast word)))"

function findall_vowels :: "string \<Rightarrow> string list" where
  \<comment> \<open>\<open>re.findall(r'[aeiouy]+', word)\<close>: leftmost greedy matches, none overlapping\<close>
  "findall_vowels [] = []"
| "findall_vowels (c # cs) =
     (if is_vowel c then (c # takeWhile is_vowel cs) # findall_vowels (dropWhile is_vowel cs)
      else findall_vowels cs)"
  by pat_completeness auto
termination
  by (relation "measure length") (auto simp: less_Suc_eq_le length_dropWhile_le)

function collapse_ws :: "string \<Rightarrow> string" where
  \<comment> \<open>\<open>re.sub(r'\s+', ' ', text)\<close>\<close>
  "collapse_ws [] = []"
| "collapse_ws (c # cs) =
     (if isspace c then CHR '' '' # collapse_ws (dropWhile isspace cs) else c # collapse_ws cs)"
  by pat_completeness auto
termination
  by (relation "measure length") (auto simp: less_Suc_eq_le length_dropWhile_le)

section \<open>Syllable estimator\<close>

definition estimate_syllables :: "string \<Rightarrow> int" where
  "estimate_syllables word0 =
     (let word = strip (lower word0)
      in if word = [] \<or> \<not> search_az word then 0
         else if length word \<le> 3 then 1
         else
           let word = (if endswith word ''e''
                       then (if \<not> (endswith word ''le'' \<and> search_nonvowel_le word)
                             then butlast word else word)
                       else word);
               vowel_groups = findall_vowels word;
               count = int (length vowel_groups)
           in if count = 0 then 1 else count)"

text \<open>The estimator as the specification words it, for comparison with the code.\<close>

definition is_letter :: "char \<Rightarrow> bool" where
  \<comment> \<open>an alphabetic character of the scripts' alphabet, in either case\<close>
  "is_letter c = (is_az c \<or> (65 \<le> (of_char c :: nat) \<and> (of_char c :: nat) \<le> 90))"

definition ends_consonant_le :: "string \<Rightarrow> bool" where
  \<comment> \<open>the word ends in \<open>le\<close> and the character just before \<open>le\<close> is no vowel\<close>
  "ends_consonant_le w =
     (3 \<le> length w \<and> endswith w ''le'' \<and> \<not> is_vowel (w ! (length w - 3)))"

definition strip_silent_e :: "string \<Rightarrow> string" where
  "strip_silent_e w = (if endswith w ''e'' \<and> \<not> ends_consonant_le w then butlast w else w)"

fun vowel_run_starts :: "bool \<Rightarrow> string \<Rightarrow> nat" where
  \<comment> \<open>counts the positions where a run of vowels begins; the flag says whether the
      previous character was a vowel\<close>
  "vowel_run_starts in_run [] = 0"
| "vowel_run_starts in_run (c # cs) =
     (if is_vowel c then (if in_run then 0 else 1) + vowel_run_starts True cs
      else vowel_run_starts False cs)"

definition vowel_runs :: "string \<Rightarrow> nat" where
  "vowel_runs w = vowel_run_starts False w"

section \<open>Text normalizer\<close>

definition clean_text :: "string \<Rightarrow> string" where
  \<comment> \<open>\<open>clean_text\<close> of chop2.1.py to chop2.3.1.py and create_broken_sentences.py:
      letters, digits and whitespace are kept\<close>
  "clean_text text0 =
     (let text = lower text0;
          text = filter (\<lambda>c. is_az c \<or> is_digit c \<or> isspace c) text;
          text = strip (collapse_ws text)
      in text)"

definition clean_text_tight :: "string \<Rightarrow> string" where
  \<comment> \<open>\<open>clean_text\<close> of sentence_breaker_tight.py: digits are removed as well\<close>
  "clean_text_tight text0 =
     (let text = lower text0;
          text = filter (\<lambda>c. is_az c \<or> isspace c) text;
          text = strip (collapse_ws text)
      in text)"

fun no_double_space :: "string \<Rightarrow> bool" where
  \<comment> \<open>no two consecutive spaces\<close>
  "no_double_space (a # b # cs) = (\<not> (a = CHR '' '' \<and> b = CHR '' '') \<and> no_double_space (b # cs))"
| "no_double_space [a] = True"
| "no_double_space [] = True"

section \<open>The random source\<close>

text \<open>
  The scripts draw from Python's global generator.  Here the generator is an explicit
  value, the infinite sequence of raw draws still to come, and every function that draws
  returns the generator it leaves behind.
\<close>

type_synonym rng = "nat \<Rightarrow> nat"

datatype error = ValueError

definition rng_tail :: "rng \<Rightarrow> rng" where
  "rng_tail g = (\<lambda>i. g (Suc i))"

definition random :: "rng \<Rightarrow> real \<times> rng" where
  \<comment> \<open>\<open>random.random()\<close>: a 53 bit fraction in [0, 1)\<close>
  "random g = (real (g 0 mod 2 ^ 53) / 2 ^ 53, rng_tail g)"

definition uniform :: "rng \<Rightarrow> real \<Rightarrow> real \<Rightarrow> real \<times> rng" where
  \<comment> \<open>\<open>random.uniform(a, b)\<close> is \<open>a + (b - a) * random()\<close>\<close>
  "uniform g a b = (let (u, g1) = random g in (a + (b - a) * u, g1))"

definition randbelow :: "rng \<Rightarrow> nat \<Rightarrow> nat \<times> rng" where
  \<comment> \<open>a number below \<open>n\<close>, for \<open>n > 0\<close>\<close>
  "randbelow g n = (g 0 mod n, rng_tail g)"

definition randint :: "rng \<Rightarrow> int \<Rightarrow> int \<Rightarrow> int \<times> rng" where
  \<comment> \<open>\<open>random.randint(a, b)\<close>; the scripts call it with \<open>a \<le> b\<close> only\<close>
  "randint g a b = (let (r, g1) = randbelow g (nat (b - a + 1)) in (a + int r, g1))"

fun sample_loop :: "rng \<Rightarrow> 'a list \<Rightarrow> nat \<Rightarrow> 'a list \<times> rng" where
  \<comment> \<open>the selection loop of \<open>random.sample\<close>: a position of the pool is drawn, its element
      taken, and the last element of the pool moved into its place\<close>
  "sample_loop g pool 0 = ([], g)"
| "sample_loop g pool (Suc i) =
     (let (j, g1) = randbelow g (length pool);
          (rest, g2) = sample_loop g1 (butlast (pool[j := last pool])) i
      in (pool ! j # rest, g2))"

definition random_sample :: "rng \<Rightarrow> 'a list \<Rightarrow> int \<Rightarrow> error + 'a list \<times> rng" where
  \<comment> \<open>\<open>random.sample(population, k)\<close> raises ValueError unless \<open>0 \<le> k \<le> len(population)\<close>\<close>
  "random_sample g population k =
     (if 0 \<le> k \<and> k \<le> int (length population)
      then Inr (sample_loop g population (nat k)) else Inl ValueError)"

definition py_int :: "real \<Rightarrow> int" where
  \<comment> \<open>\<open>int(x)\<close> of a float: truncation toward zero\<close>
  "py_int x = (if 0 \<le> x then \<lfloor>x\<rfloor> else \<lceil>x\<rceil>)"

section \<open>Word sampler\<close>

definition sample_size_chop :: "string list \<Rightarrow> real \<Rightarrow> int" where
  \<comment> \<open>chop.py, line 23\<close>
  "sample_size_chop words percentage_to_keep = py_int (real (length words) * percentage_to_keep)"

definition sample_size :: "string list \<Rightarrow> real \<Rightarrow> int" where
  \<comment> \<open>every later script: \<open>k\<close> is raised to 1 when it is 0 and there are words\<close>
  "sample_size words percentage_to_keep =
     (let k = py_int (real (length words) * percentage_to_keep)
      in if k = 0 \<and> length words > 0 then 1 else k)"

definition sampled_words_chop :: "rng \<Rightarrow> string list \<Rightarrow> real \<Rightarrow> error + string list \<times> rng" where
  \<comment> \<open>chop.py, lines 23 to 26\<close>
  "sampled_words_chop g words percentage_to_keep =
     random_sample g words (sample_size_chop words percentage_to_keep)"

definition sampled_words :: "rng \<Rightarrow> string list \<Rightarrow> real \<Rightarrow> error + string list \<times> rng" where
  \<comment> \<open>chop2.2.py, lines 87 to 91; create_broken_sentences.py, lines 77 to 83\<close>
  "sampled_words g words percentage_to_keep =
     random_sample g words (sample_size words percentage_to_keep)"

section \<open>Line packer\<close>

definition newline :: string where
  "newline = [CHR 0x0A]"

definition TARGET_SYLLABLES_PER_LINE :: int where
  "TARGET_SYLLABLES_PER_LINE = 10"

fun lineate_fixed :: "int \<Rightarrow> string list \<Rightarrow> string list \<Rightarrow> int \<Rightarrow> string list \<Rightarrow> string list" where
  \<comment> \<open>the loop of chop2.2.py, lines 94 to 116, with its syllable target: the lines so
      far, the words and the syllables of the current line, then the words still to place\<close>
  "lineate_fixed target all_lines current_line_words current_line_syllables [] =
     (if current_line_words \<noteq> [] then all_lines @ [join '' '' current_line_words] else all_lines)"
| "lineate_fixed target all_lines current_line_words current_line_syllables (word # rest) =
     (let word_syllables = estimate_syllables word
      in if current_line_syllables + word_syllables > target \<and> current_line_syllables > 0
         then lineate_fixed target (all_lines @ [join '' '' current_line_words])
                [word] word_syllables rest
         else lineate_fixed target all_lines (current_line_words @ [word])
                (current_line_syllables + word_syllables) rest)"

fun lineate_window :: "int \<Rightarrow> int \<Rightarrow> string list \<Rightarrow> string list \<Rightarrow> int \<Rightarrow> string list \<Rightarrow> string list" where
  \<comment> \<open>the loop of create_broken_sentences.py, lines 86 to 106\<close>
  "lineate_window min_syllables max_syllables all_lines current_line_words current_line_syllables [] =
     (if current_line_words \<noteq> [] then all_lines @ [join '' '' current_line_words] else all_lines)"
| "lineate_window min_syllables max_syllables all_lines current_line_words current_line_syllables
       (word # rest) =
     (let word_syllables = estimate_syllables word
      in if current_line_syllables + word_syllables > max_syllables
            \<and> current_line_syllables \<ge> min_syllables
         then lineate_window min_syllables max_syllables
                (all_lines @ [join '' '' current_line_words]) [word] word_syllables rest
         else lineate_window min_syllables max_syllables all_lines
                (current_line_words @ [word]) (current_line_syllables + word_syllables) rest)"

definition BASE_MIN_SYLLABLES :: int where "BASE_MIN_SYLLABLES = 6"
definition BASE_MAX_SYLLABLES :: int where "BASE_MAX_SYLLABLES = 12"
definition MULTIPLIER_MIN :: real where "MULTIPLIER_MIN = 1"
definition MULTIPLIER_MAX :: real where "MULTIPLIER_MAX = 167 / 100"

definition get_random_line_syllable_limits :: "rng \<Rightarrow> (int \<times> int) \<times> rng" where
  \<comment> \<open>sentence_breaker_tight.py, lines 70 to 86\<close>
  "get_random_line_syllable_limits g =
     (let (multiplier, g1) = uniform g MULTIPLIER_MIN MULTIPLIER_MAX;
          min_syllables = py_int (real_of_int BASE_MIN_SYLLABLES * multiplier);
          max_syllables = py_int (real_of_int BASE_MAX_SYLLABLES * multiplier);
          min_fluctuation = py_int (real_of_int min_syllables * (1 / 10));
          max_fluctuation = py_int (real_of_int max_syllables * (1 / 10));
          (d1, g2) = randint g1 (- min_fluctuation) min_fluctuation;
          min_syllables = min_syllables + d1;
          (d2, g3) = randint g2 (- max_fluctuation) max_fluctuation;
          max_syllables = max_syllables + d2;
          min_syllables = max 1 min_syllables;
          max_syllables = max (min_syllables + 1) max_syllables
      in ((min_syllables, max_syllables), g3))"

fun lineate_random_window ::
  "rng \<Rightarrow> int \<Rightarrow> int \<Rightarrow> string list \<Rightarrow> string list \<Rightarrow> int \<Rightarrow> string list \<Rightarrow> string list" where
  \<comment> \<open>the loop of sentence_breaker_tight.py, lines 306 to 329: new limits are drawn
      whenever a line is closed\<close>
  "lineate_random_window g min_syllables max_syllables all_lines current_line_words
       current_line_syllables [] =
     (if current_line_words \<noteq> [] then all_lines @ [join '' '' current_line_words] else all_lines)"
| "lineate_random_window g min_syllables max_syllables all_lines current_line_words
       current_line_syllables (word # rest) =
     (let word_syllables = estimate_syllables word
      in if current_line_syllables + word_syllables > max_syllables
            \<and> current_line_syllables \<ge> min_syllables
         then (let ((min_syllables1, max_syllables1), g1) = get_random_line_syllable_limits g
               in lineate_random_window g1 min_syllables1 max_syllables1
                    (all_lines @ [join '' '' current_line_words]) [word] word_syllables rest)
         else lineate_random_window g min_syllables max_syllables all_lines
                (current_line_words @ [word]) (current_line_syllables + word_syllables) rest)"

function lineate_word_count :: "rng \<Rightarrow> string list \<Rightarrow> nat \<Rightarrow> string list \<Rightarrow> string list" where
  \<comment> \<open>the loop of chop.py, lines 33 to 45, and of chop2.py: each line takes the next
      3 to 7 words\<close>
  "lineate_word_count g sampled i lineated_text_lines =
     (if i < length sampled
      then (let (line_length, g1) = randint g 3 7;
                line_words = take (nat line_length) (drop i sampled)
            in lineate_word_count g1 sampled (i + nat line_length)
                 (lineated_text_lines @ [join '' '' line_words]))
      else lineated_text_lines)"
  by pat_completeness auto
termination
  by (relation "measure (\<lambda>(g, sampled, i, ls). length sampled - i)")
     (auto simp: randint_def randbelow_def)

declare lineate_word_count.simps [simp del]

definition lines_tight :: "rng \<Rightarrow> string list \<Rightarrow> string list" where
  \<comment> \<open>the packing of sentence_breaker_tight.py, lines 306 to 329, from its first draw of
      limits on\<close>
  "lines_tight g sampled =
     (let ((min_syllables, max_syllables), g1) = get_random_line_syllable_limits g
      in lineate_random_window g1 min_syllables max_syllables [] [] 0 sampled)"

section \<open>The reduce and lineate functions\<close>

definition randomly_reduce_and_lineate_text_chop :: "rng \<Rightarrow> string \<Rightarrow> real \<Rightarrow> error + string" where
  \<comment> \<open>chop.py: no check for an empty text and none on \<open>k\<close>\<close>
  "randomly_reduce_and_lineate_text_chop g text percentage_to_keep =
     (let words = split text
      in case sampled_words_chop g words percentage_to_keep of
           Inl e \<Rightarrow> Inl e
         | Inr (sampled, g1) \<Rightarrow> Inr (join newline (lineate_word_count g1 sampled 0 [])))"

definition randomly_reduce_and_lineate_text_chop2 :: "rng \<Rightarrow> string \<Rightarrow> real \<Rightarrow> error + string" where
  \<comment> \<open>chop2.py\<close>
  "randomly_reduce_and_lineate_text_chop2 g text percentage_to_keep =
     (let words = split text
      in if words = [] then Inr ''(The source file was empty.)''
         else case sampled_words g words percentage_to_keep of
           Inl e \<Rightarrow> Inl e
         | Inr (sampled, g1) \<Rightarrow> Inr (join newline (lineate_word_count g1 sampled 0 [])))"

definition randomly_reduce_and_lineate_text :: "rng \<Rightarrow> string \<Rightarrow> real \<Rightarrow> error + string" where
  \<comment> \<open>chop2.2.py, chop2.3.py, chop2.3.1.py and the definition in force in chop2.1.py\<close>
  "randomly_reduce_and_lineate_text g text percentage_to_keep =
     (let words = split text
      in if words = []
         then Inr ''(The source file was empty or had no words after cleaning.)''
         else case sampled_words g words percentage_to_keep of
           Inl e \<Rightarrow> Inl e
         | Inr (sampled, g1) \<Rightarrow>
             Inr (join newline (lineate_fixed TARGET_SYLLABLES_PER_LINE [] [] 0 sampled)))"

definition create_broken_sentence_text ::
  "rng \<Rightarrow> string \<Rightarrow> real \<Rightarrow> int \<Rightarrow> int \<Rightarrow> error + string" where
  \<comment> \<open>create_broken_sentences.py; the defaults are \<open>min_syllables=6, max_syllables=12\<close>\<close>
  "create_broken_sentence_text g text percentage_to_keep min_syllables max_syllables =
     (let words = split text
      in if words = [] then Inr []
         else case sampled_words g words percentage_to_keep of
           Inl e \<Rightarrow> Inl e
         | Inr (sampled, g1) \<Rightarrow>
             Inr (join newline (lineate_window min_syllables max_syllables [] [] 0 sampled)))"

definition create_broken_sentence_text_tight :: "rng \<Rightarrow> string \<Rightarrow> real \<Rightarrow> error + string" where
  \<comment> \<open>\<open>create_broken_sentence_text\<close> of sentence_breaker_tight.py\<close>
  "create_broken_sentence_text_tight g text percentage_to_keep =
     (let words = split text
      in if words = [] then Inr []
         else case sampled_words g words percentage_to_keep of
           Inl e \<Rightarrow> Inl e
         | Inr (sampled, g1) \<Rightarrow> Inr (join newline (lines_tight g1 sampled)))"

definition is_word :: "string \<Rightarrow> bool" where
  \<comment> \<open>a token as \<open>split\<close> yields it: not empty and free of whitespace\<close>
  "is_word w = (w \<noteq> [] \<and> list_all (\<lambda>c. \<not> isspace c) w)"





section \<open>Retention calculator\<close>

definition REFERENCE_SHORT_LENGTH :: real where "REFERENCE_SHORT_LENGTH = 1000"
definition REFERENCE_LONG_LENGTH :: real where "REFERENCE_LONG_LENGTH = 20000"

text \<open>
  The four keep constants differ from script to script; the calculation is the same, so
  it takes them as a record.
\<close>

record keep_ranges =
  SHORT_TEXT_MIN_KEEP :: real
  SHORT_TEXT_MAX_KEEP :: real
  LONG_TEXT_MIN_KEEP :: real
  LONG_TEXT_MAX_KEEP :: real

definition chop_ranges :: keep_ranges where
  \<comment> \<open>chop2.1.py, chop2.2.py, chop2.3.py, chop2.3.1.py\<close>
  "chop_ranges = \<lparr>SHORT_TEXT_MIN_KEEP = 15 / 100, SHORT_TEXT_MAX_KEEP = 30 / 100,
                   LONG_TEXT_MIN_KEEP = 1 / 100, LONG_TEXT_MAX_KEEP = 10 / 100\<rparr>"

definition broken_sentences_ranges :: keep_ranges where
  \<comment> \<open>create_broken_sentences.py\<close>
  "broken_sentences_ranges = \<lparr>SHORT_TEXT_MIN_KEEP = 8 / 100, SHORT_TEXT_MAX_KEEP = 10 / 100,
                               LONG_TEXT_MIN_KEEP = 1 / 100, LONG_TEXT_MAX_KEEP = 2 / 100\<rparr>"

definition tight_ranges :: keep_ranges where
  \<comment> \<open>sentence_breaker_tight.py\<close>
  "tight_ranges = \<lparr>SHORT_TEXT_MIN_KEEP = 24 / 100, SHORT_TEXT_MAX_KEEP = 30 / 100,
                    LONG_TEXT_MIN_KEEP = 3 / 100, LONG_TEXT_MAX_KEEP = 6 / 100\<rparr>"

definition length_factor :: "int \<Rightarrow> real" where
  "length_factor text_length =
     (let normalized_length = (real_of_int text_length - REFERENCE_SHORT_LENGTH)
                              / (REFERENCE_LONG_LENGTH - REFERENCE_SHORT_LENGTH)
      in max 0 (min 1 normalized_length))"

definition current_min_keep :: "keep_ranges \<Rightarrow> int \<Rightarrow> real" where
  "current_min_keep c text_length =
     SHORT_TEXT_MIN_KEEP c * (1 - length_factor text_length)
     + LONG_TEXT_MIN_KEEP c * length_factor text_length"

definition current_max_keep :: "keep_ranges \<Rightarrow> int \<Rightarrow> real" where
  "current_max_keep c text_length =
     SHORT_TEXT_MAX_KEEP c * (1 - length_factor text_length)
     + LONG_TEXT_MAX_KEEP c * length_factor text_length"

definition calculate_biased_retention :: "keep_ranges \<Rightarrow> rng \<Rightarrow> int \<Rightarrow> real option \<Rightarrow> real \<times> rng" where
  \<comment> \<open>\<open>calculate_biased_retention\<close> of create_broken_sentences.py and
      sentence_breaker_tight.py; without a fixed value it is step 5 and 6 of the main
      part of the chop scripts\<close>
  "calculate_biased_retention c g text_length fixed_retention =
     (case fixed_retention of
        Some f \<Rightarrow> (f, g)
      | None \<Rightarrow> uniform g (current_min_keep c text_length) (current_max_keep c text_length))"

definition process_file :: "rng \<Rightarrow> string \<Rightarrow> real option \<Rightarrow> error + string option" where
  \<comment> \<open>\<open>process_file\<close> of create_broken_sentences.py between reading the source file and
      writing the result: the text read goes in, the text to write comes out; \<open>None\<close> is
      the return after the warning that no words are left\<close>
  "process_file g original_text fixed_retention =
     (let cleaned_text = clean_text original_text
      in if strip cleaned_text = [] then Inr None
         else
           let text_length = int (length cleaned_text);
               (percentage_to_keep, g1) =
                  calculate_biased_retention broken_sentences_ranges g text_length fixed_retention
           in case create_broken_sentence_text g1 cleaned_text percentage_to_keep 6 12 of
                Inl e \<Rightarrow> Inl e
              | Inr broken_text \<Rightarrow> Inr (Some broken_text))"

section \<open>Obfuscated words\<close>

definition utf8_encode :: "string \<Rightarrow> nat list" where
  \<comment> \<open>\<open>word.encode()\<close>: one byte for a code point below 128, two bytes up to 255\<close>
  "utf8_encode word =
     concat (map (\<lambda>c. let n = (of_char c :: nat)
                       in if n < 128 then [n] else [192 + n div 64, 128 + n mod 64]) word)"

definition b64chars :: string where
  "b64chars = ''ABCDEFGHIJKLMNOPQRSTUVWXYZabcdefghijklmnopqrstuvwxyz0123456789+/''"

definition b64char :: "nat \<Rightarrow> char" where
  \<comment> \<open>the character for a group of six bits\<close>
  "b64char i = b64chars ! i"

fun b64encode :: "nat list \<Rightarrow> string" where
  \<comment> \<open>\<open>base64.b64encode\<close>: three bytes give four characters, a rest of one or two bytes is
      padded with \<open>=\<close>\<close>
  "b64encode (a # b # c # rest) =
     [b64char (a div 4), b64char ((a mod 4) * 16 + b div 16),
      b64char ((b mod 16) * 4 + c div 64), b64char (c mod 64)] @ b64encode rest"
| "b64encode [a, b] =
     [b64char (a div 4), b64char ((a mod 4) * 16 + b div 16),
      b64char ((b mod 16) * 4), CHR ''='']"
| "b64encode [a] = [b64char (a div 4), b64char ((a mod 4) * 16), CHR ''='', CHR ''='']"
| "b64encode [] = []"

definition encrypt_word :: "string \<Rightarrow> string" where
  \<comment> \<open>sentence_breaker_tight.py, lines 58 to 67\<close>
  "encrypt_word word =
     (if word = [] then []
      else
        let encoded = b64encode (utf8_encode word)
        in if length encoded > length word then take (length word + 2) encoded else encoded)"

definition is_ascii :: "string \<Rightarrow> bool" where
  "is_ascii w = list_all (\<lambda>c. (of_char c :: nat) < 128) w"

text \<open>
  A decoder for the obfuscated form, to state how far it can be read back: it reads the
  base64 characters that are there, four at a time, and yields the bytes they determine
  in full.
\<close>

definition b64index :: "char \<Rightarrow> nat" where
  \<comment> \<open>the six bits of a base64 character\<close>
  "b64index c = length (takeWhile (\<lambda>x. x \<noteq> c) b64chars)"

fun b64decode :: "string \<Rightarrow> nat list" where
  "b64decode (c0 # c1 # c2 # c3 # rest) =
     (let i0 = b64index c0; i1 = b64index c1; i2 = b64index c2; i3 = b64index c3
      in if c2 = CHR ''='' then [i0 * 4 + i1 div 16]
         else if c3 = CHR ''='' then [i0 * 4 + i1 div 16, (i1 mod 16) * 16 + i2 div 4]
         else [i0 * 4 + i1 div 16, (i1 mod 16) * 16 + i2 div 4, (i2 mod 4) * 64 + i3]
              @ b64decode rest)"
| "b64decode [c0, c1, c2] =
     (let i0 = b64index c0; i1 = b64index c1; i2 = b64index c2
      in if c2 = CHR ''='' then [i0 * 4 + i1 div 16]
         else [i0 * 4 + i1 div 16, (i1 mod 16) * 16 + i2 div 4])"
| "b64decode [c0, c1] = [b64index c0 * 4 + b64index c1 div 16]"
| "b64decode [c0] = []"
| "b64decode [] = []"

definition decrypt_word :: "string \<Rightarrow> string" where
  "decrypt_word s = map char_of (b64decode s)"

section \<open>Properties of the string functions\<close>

lemma endswith_iff: "endswith s suffix \<longleftrightarrow> (\<exists>ys. s = ys @ suffix)"
proof
  assume "endswith s suffix"
  then have "s = take (length s - length suffix) s @ suffix"
    by (metis append_take_drop_id endswith_def)
  then show "\<exists>ys. s = ys @ suffix" ..
next
  assume "\<exists>ys. s = ys @ suffix"
  then show "endswith s suffix" by (auto simp: endswith_def)
qed

lemma is_az_lower_char: "is_az (lower_char c) \<longleftrightarrow> is_letter c"
  by (auto simp: is_az_def is_letter_def lower_char_def Let_def)

lemma is_az_not_space: "is_az c \<Longrightarrow> \<not> isspace c"
  by (auto simp: is_az_def isspace_def)

lemma set_strip_subset: "set (strip s) \<subseteq> set s"
  unfolding strip_def lstrip_def rstrip_def
  by (metis set_dropWhileD set_rev subsetI)

lemma nonspace_in_dropWhile: "c \<in> set s \<Longrightarrow> \<not> isspace c \<Longrightarrow> c \<in> set (dropWhile isspace s)"
  by (induction s) auto

lemma nonspace_in_strip: "c \<in> set s \<Longrightarrow> \<not> isspace c \<Longrightarrow> c \<in> set (strip s)"
  unfolding strip_def lstrip_def rstrip_def
  by (simp add: nonspace_in_dropWhile)

lemma search_az_strip_lower: "search_az (strip (lower w)) \<longleftrightarrow> (\<exists>c \<in> set w. is_letter c)"
proof
  assume "search_az (strip (lower w))"
  then obtain d where d: "d \<in> set (strip (lower w))" "is_az d" by (auto simp: search_az_def)
  then have "d \<in> set (lower w)" using set_strip_subset by blast
  then obtain c where "c \<in> set w" "d = lower_char c" by (auto simp: lower_def)
  with d show "\<exists>c \<in> set w. is_letter c" using is_az_lower_char by blast
next
  assume "\<exists>c \<in> set w. is_letter c"
  then obtain c where c: "c \<in> set w" "is_letter c" by blast
  then have "lower_char c \<in> set (lower w)" "is_az (lower_char c)"
    by (auto simp: lower_def is_az_lower_char)
  then show "search_az (strip (lower w))"
    unfolding search_az_def using nonspace_in_strip is_az_not_space by blast
qed

lemma length_strip_le: "length (strip s) \<le> length s"
  unfolding strip_def lstrip_def rstrip_def
  by (metis length_dropWhile_le length_rev order_trans)

lemma ends_le_consonant:
  "endswith w ''le'' \<and> search_nonvowel_le w \<longleftrightarrow> ends_consonant_le w"
proof (cases "endswith w ''le''")
  case False
  then show ?thesis by (simp add: ends_consonant_le_def)
next
  case True
  then obtain ys where w: "w = ys @ ''le''" using endswith_iff by blast
  show ?thesis
  proof (cases ys rule: rev_cases)
    case Nil
    with w True show ?thesis
      by (simp add: ends_consonant_le_def search_nonvowel_le_def ends_nonvowel_le_def)
  next
    case (snoc zs c)
    with w True show ?thesis
      by (simp add: ends_consonant_le_def search_nonvowel_le_def ends_nonvowel_le_def nth_append)
  qed
qed

lemma vrs_dropWhile: "vowel_run_starts True cs = vowel_run_starts True (dropWhile is_vowel cs)"
  by (induction cs) auto

lemma vrs_nonvowel_head: "vowel_run_starts True (dropWhile is_vowel cs) = vowel_run_starts False (dropWhile is_vowel cs)"
proof (cases "dropWhile is_vowel cs")
  case Nil
  show ?thesis unfolding Nil by simp
next
  case (Cons d ds)
  then have "\<not> is_vowel d" using hd_dropWhile[of is_vowel cs] by simp
  with Cons show ?thesis by simp
qed

lemma length_findall_vowels: "length (findall_vowels w) = vowel_runs w"
  unfolding vowel_runs_def
proof (induction w rule: findall_vowels.induct)
  case 1
  then show ?case by simp
next
  case (2 c cs)
  then show ?case using vrs_dropWhile[of cs] vrs_nonvowel_head[of cs] by auto
qed

lemma estimate_syllables_trimmed:
  "estimate_syllables w =
     (let t = strip (lower w)
      in if \<not> (\<exists>c \<in> set w. is_letter c) then 0
         else if length t \<le> 3 then 1
         else max 1 (int (vowel_runs (strip_silent_e t))))"
proof -
  have nonempty: "strip (lower w) \<noteq> []" if "\<exists>c \<in> set w. is_letter c"
    using that search_az_strip_lower[of w] by (auto simp: search_az_def)
  have sil: "(if endswith t ''e'' then (if \<not> (endswith t ''le'' \<and> search_nonvowel_le t) then butlast t else t) else t) = strip_silent_e t" for t
    by (simp add: strip_silent_e_def ends_le_consonant)
  show ?thesis
    unfolding estimate_syllables_def Let_def sil length_findall_vowels search_az_strip_lower
    using nonempty by auto
qed

text \<open>
  Claim C4.  The estimator returns 0 for the empty string and for every token without a
  letter, and 1 for every word of at most three characters that contains a letter.  For a
  word with a letter whose trimmed, lowercased form has more than three characters it
  removes a final \<open>e\<close>, unless the word ends in \<open>le\<close> after a non-vowel, and returns the
  number of runs of the vowels a, e, i, o, u, y, but at least 1.  In \<open>table\<close> the final
  \<open>e\<close> stays and the estimate is 2.
\<close>

theorem estimate_syllables_spec:
  "estimate_syllables [] = 0
   \<and> ((\<forall>c \<in> set w. \<not> is_letter c) \<longrightarrow> estimate_syllables w = 0)
   \<and> ((\<exists>c \<in> set w. is_letter c) \<and> length w \<le> 3 \<longrightarrow> estimate_syllables w = 1)
   \<and> ((\<exists>c \<in> set w. is_letter c) \<and> 3 < length (strip (lower w)) \<longrightarrow>
        estimate_syllables w = max 1 (int (vowel_runs (strip_silent_e (strip (lower w))))))
   \<and> estimate_syllables ''a'' = 1 \<and> estimate_syllables ''the'' = 1
   \<and> strip_silent_e ''table'' = ''table'' \<and> estimate_syllables ''table'' = 2"
proof -
  have short: "length (strip (lower w)) \<le> 3" if "length w \<le> 3"
    using that length_strip_le[of "lower w"] by (simp add: lower_def)
  have e: "estimate_syllables [] = 0"
    by (simp add: estimate_syllables_trimmed)
  have a: "estimate_syllables ''a'' = 1" by code_simp
  have the: "estimate_syllables ''the'' = 1" by code_simp
  have table: "strip_silent_e ''table'' = ''table''" "estimate_syllables ''table'' = 2"
    by code_simp+
  show ?thesis
    using short e a the table by (auto simp: estimate_syllables_trimmed Let_def)
qed

theorem estimate_syllables_spec_witness:
  "\<not> (\<exists>c \<in> set ''123''. is_letter c) \<and> estimate_syllables ''123'' = 0
   \<and> (\<exists>c \<in> set ''the''. is_letter c) \<and> length ''the'' \<le> 3 \<and> estimate_syllables ''the'' = 1
   \<and> (\<exists>c \<in> set ''whale''. is_letter c) \<and> 3 < length (strip (lower ''whale''))
   \<and> strip_silent_e (strip (lower ''whale'')) = ''whal''
   \<and> estimate_syllables ''whale'' = max 1 (int (vowel_runs ''whal''))"
proof -
  have h1: "\<not> (\<exists>c \<in> set ''123''. is_letter c)" by code_simp
  have h2: "(\<exists>c \<in> set ''the''. is_letter c) \<and> length ''the'' \<le> 3" by code_simp
  have h3: "(\<exists>c \<in> set ''whale''. is_letter c) \<and> 3 < length (strip (lower ''whale''))"
    by code_simp
  have s: "strip_silent_e (strip (lower ''whale'')) = ''whal''" by code_simp
  from h1 estimate_syllables_spec[of "''123''"] have c1: "estimate_syllables ''123'' = 0"
    by blast
  from h2 estimate_syllables_spec[of "''the''"] have c2: "estimate_syllables ''the'' = 1"
    by blast
  from h3 estimate_syllables_spec[of "''whale''"]
  have c3: "estimate_syllables ''whale'' = max 1 (int (vowel_runs ''whal''))"
    unfolding s by blast
  from h1 h2 h3 s c1 c2 c3 show ?thesis by blast
qed

section \<open>Properties of the text normalizer\<close>

lemma isspace_space: "isspace CHR '' ''"
  by (simp add: isspace_def)

lemma set_collapse_ws: "c \<in> set (collapse_ws t) \<Longrightarrow> c = CHR '' '' \<or> (c \<in> set t \<and> \<not> isspace c)"
proof (induction t rule: collapse_ws.induct)
  case 1
  then show ?case by simp
next
  case (2 d ds)
  then show ?case by (auto split: if_splits dest: set_dropWhileD)
qed

lemma nds_tail: "no_double_space (x # xs) \<Longrightarrow> no_double_space xs"
  by (cases xs) auto

lemma nds_Cons_nonspace: "x \<noteq> CHR '' '' \<Longrightarrow> no_double_space (x # xs) = no_double_space xs"
  by (cases xs) auto

lemma nds_Cons_space:
  "no_double_space (CHR '' '' # xs) = ((xs = [] \<or> hd xs \<noteq> CHR '' '') \<and> no_double_space xs)"
  by (cases xs) auto

lemma collapse_ws_head: "\<not> isspace d \<Longrightarrow> hd (collapse_ws (d # ds)) = d"
  by simp

lemma nds_collapse_ws: "no_double_space (collapse_ws t)"
proof (induction t rule: collapse_ws.induct)
  case 1
  then show ?case by simp
next
  case (2 c cs)
  show ?case
  proof (cases "isspace c")
    case True
    note sp = this
    show ?thesis
    proof (cases "dropWhile isspace cs")
      case Nil
      with sp show ?thesis by (simp add: Nil)
    next
      case (Cons d ds)
      then have d: "\<not> isspace d" using hd_dropWhile[of isspace cs] by simp
      then have "d \<noteq> CHR '' ''" using isspace_space by auto
      moreover have "no_double_space (collapse_ws (d # ds))"
        using 2(1)[OF sp] by (simp add: Cons)
      ultimately show ?thesis using sp d by (simp add: Cons nds_Cons_space)
    qed
  next
    case False
    then have "c \<noteq> CHR '' ''" using isspace_space by auto
    with False 2(2) show ?thesis by (simp add: nds_Cons_nonspace)
  qed
qed

lemma nds_append_left: "no_double_space (xs @ ys) \<Longrightarrow> no_double_space xs"
  by (induction xs rule: no_double_space.induct) auto

lemma nds_dropWhile: "no_double_space xs \<Longrightarrow> no_double_space (dropWhile P xs)"
  by (induction xs) (auto dest: nds_tail)

lemma rstrip_prefix: "s = rstrip s @ rev (takeWhile isspace (rev s))"
  unfolding rstrip_def
  by (metis rev_append rev_rev_ident takeWhile_dropWhile_id)

lemma nds_strip: "no_double_space s \<Longrightarrow> no_double_space (strip s)"
  unfolding strip_def lstrip_def
  by (metis nds_append_left nds_dropWhile rstrip_prefix)

lemma last_dropWhile: "dropWhile P xs \<noteq> [] \<Longrightarrow> last (dropWhile P xs) = last xs"
  by (induction xs) (auto split: if_splits)

lemma strip_ends: "strip s \<noteq> [] \<Longrightarrow> \<not> isspace (hd (strip s)) \<and> \<not> isspace (last (strip s))"
proof -
  assume ne: "strip s \<noteq> []"
  then have r: "rstrip s \<noteq> []" by (auto simp: strip_def lstrip_def)
  then have "dropWhile isspace (rev s) \<noteq> []" by (simp add: rstrip_def)
  then have "\<not> isspace (hd (dropWhile isspace (rev s)))" by (rule hd_dropWhile)
  then have "\<not> isspace (last (rstrip s))"
    using r by (simp add: rstrip_def last_rev)
  moreover have "last (strip s) = last (rstrip s)"
    using ne unfolding strip_def lstrip_def by (rule last_dropWhile)
  moreover have "\<not> isspace (hd (strip s))"
    using ne unfolding strip_def lstrip_def by (rule hd_dropWhile)
  ultimately show ?thesis by simp
qed

lemma collapse_ws_id:
  "\<forall>c \<in> set y. \<not> isspace c \<or> c = CHR '' '' \<Longrightarrow> no_double_space y \<Longrightarrow> collapse_ws y = y"
proof (induction y)
  case Nil
  then show ?case by simp
next
  case (Cons c cs)
  then have ih: "collapse_ws cs = cs" by (auto dest: nds_tail)
  show ?case
  proof (cases "isspace c")
    case False
    with ih show ?thesis by simp
  next
    case True
    with Cons.prems have c: "c = CHR '' ''" by auto
    have "dropWhile isspace cs = cs"
    proof (cases cs)
      case Nil
      then show ?thesis by simp
    next
      case (Cons d ds)
      with Cons.prems(2) c have "d \<noteq> CHR '' ''" by auto
      with Cons Cons.prems(1) have "\<not> isspace d" by auto
      with Cons show ?thesis by simp
    qed
    with True ih c show ?thesis by simp
  qed
qed

lemma strip_id: "y = [] \<or> (\<not> isspace (hd y) \<and> \<not> isspace (last y)) \<Longrightarrow> strip y = y"
proof (cases "y = []")
  case True
  then show ?thesis by (simp add: strip_def lstrip_def rstrip_def)
next
  case False
  assume "y = [] \<or> (\<not> isspace (hd y) \<and> \<not> isspace (last y))"
  with False have h: "\<not> isspace (hd y)" "\<not> isspace (last y)" by auto
  from False h(2) have "dropWhile isspace (rev y) = rev y"
    by (cases "rev y") (auto simp: last_rev[symmetric] hd_rev)
  then have "rstrip y = y" by (simp add: rstrip_def)
  moreover from False h(1) have "dropWhile isspace y = y" by (cases y) auto
  ultimately show ?thesis by (simp add: strip_def lstrip_def)
qed

lemma normalize_props:
  assumes A: "\<And>c. A c \<Longrightarrow> lower_char c = c \<and> \<not> isspace c"
  shows "\<forall>c \<in> set (strip (collapse_ws (filter (\<lambda>c. A c \<or> isspace c) (lower x)))). A c \<or> c = CHR '' ''"
    and "no_double_space (strip (collapse_ws (filter (\<lambda>c. A c \<or> isspace c) (lower x))))"
proof -
  let ?f = "filter (\<lambda>c. A c \<or> isspace c) (lower x)"
  show "\<forall>c \<in> set (strip (collapse_ws ?f)). A c \<or> c = CHR '' ''"
  proof
    fix c assume "c \<in> set (strip (collapse_ws ?f))"
    then have "c \<in> set (collapse_ws ?f)" using set_strip_subset by blast
    then have "c = CHR '' '' \<or> (c \<in> set ?f \<and> \<not> isspace c)" by (rule set_collapse_ws)
    then show "A c \<or> c = CHR '' ''" by auto
  qed
  show "no_double_space (strip (collapse_ws ?f))"
    by (rule nds_strip) (rule nds_collapse_ws)
qed

lemma normalize_fixpoint:
  assumes A: "\<And>c. A c \<Longrightarrow> lower_char c = c \<and> \<not> isspace c"
    and chars: "\<forall>c \<in> set y. A c \<or> c = CHR '' ''"
    and nds: "no_double_space y"
    and ends: "y = [] \<or> (\<not> isspace (hd y) \<and> \<not> isspace (last y))"
  shows "strip (collapse_ws (filter (\<lambda>c. A c \<or> isspace c) (lower y))) = y"
proof -
  have "lower_char c = c" if "c \<in> set y" for c
  proof -
    have "lower_char CHR '' '' = CHR '' ''" by (simp add: lower_char_def)
    with that chars A show ?thesis by auto
  qed
  then have l: "lower y = y" unfolding lower_def by (simp add: map_idI)
  have f: "filter (\<lambda>c. A c \<or> isspace c) y = y"
    using chars isspace_space by (auto simp: filter_id_conv)
  have "\<forall>c \<in> set y. \<not> isspace c \<or> c = CHR '' ''" using chars A by auto
  then have c: "collapse_ws y = y" using nds by (rule collapse_ws_id)
  show ?thesis unfolding l f c using ends by (rule strip_id)
qed

lemma kept_az_digit: "is_az c \<or> is_digit c \<Longrightarrow> lower_char c = c \<and> \<not> isspace c"
  by (auto simp: is_az_def is_digit_def lower_char_def isspace_def Let_def)

lemma clean_text_alt:
  "clean_text x = strip (collapse_ws (filter (\<lambda>c. (is_az c \<or> is_digit c) \<or> isspace c) (lower x)))"
  by (simp add: clean_text_def)

lemma clean_text_tight_alt:
  "clean_text_tight x = strip (collapse_ws (filter (\<lambda>c. is_az c \<or> isspace c) (lower x)))"
  by (simp add: clean_text_tight_def)

text \<open>
  Claim C8.  For every input text the normalized text holds only lowercase letters,
  digits (none in the variant that removes digits) and single spaces, has no two
  consecutive spaces and no whitespace at either end, and normalizing it again changes
  nothing.
\<close>

theorem clean_text_normal_form:
  "(\<forall>c \<in> set (clean_text x). is_az c \<or> is_digit c \<or> c = CHR '' '')
   \<and> no_double_space (clean_text x)
   \<and> (clean_text x \<noteq> [] \<longrightarrow> \<not> isspace (hd (clean_text x)) \<and> \<not> isspace (last (clean_text x)))
   \<and> clean_text (clean_text x) = clean_text x
   \<and> (\<forall>c \<in> set (clean_text_tight x). is_az c \<or> c = CHR '' '')
   \<and> no_double_space (clean_text_tight x)
   \<and> (clean_text_tight x \<noteq> [] \<longrightarrow>
        \<not> isspace (hd (clean_text_tight x)) \<and> \<not> isspace (last (clean_text_tight x)))
   \<and> clean_text_tight (clean_text_tight x) = clean_text_tight x"
proof -
  have k: "\<And>c. is_az c \<Longrightarrow> lower_char c = c \<and> \<not> isspace c"
    using kept_az_digit by blast
  have c1: "\<forall>c \<in> set (clean_text x). (is_az c \<or> is_digit c) \<or> c = CHR '' ''"
    unfolding clean_text_alt by (rule normalize_props(1)) (rule kept_az_digit)
  have c2: "no_double_space (clean_text x)"
    unfolding clean_text_alt by (rule normalize_props(2)) (rule kept_az_digit)
  have c3: "clean_text x = [] \<or> (\<not> isspace (hd (clean_text x)) \<and> \<not> isspace (last (clean_text x)))"
    unfolding clean_text_alt using strip_ends by blast
  have c4: "clean_text (clean_text x) = clean_text x"
    unfolding clean_text_alt[of "clean_text x"]
    using kept_az_digit c1 c2 c3 by (rule normalize_fixpoint)
  have t1: "\<forall>c \<in> set (clean_text_tight x). is_az c \<or> c = CHR '' ''"
    unfolding clean_text_tight_alt by (rule normalize_props(1)) (rule k)
  have t2: "no_double_space (clean_text_tight x)"
    unfolding clean_text_tight_alt by (rule normalize_props(2)) (rule k)
  have t3: "clean_text_tight x = []
      \<or> (\<not> isspace (hd (clean_text_tight x)) \<and> \<not> isspace (last (clean_text_tight x)))"
    unfolding clean_text_tight_alt using strip_ends by blast
  have t4: "clean_text_tight (clean_text_tight x) = clean_text_tight x"
    unfolding clean_text_tight_alt[of "clean_text_tight x"]
    using k t1 t2 t3 by (rule normalize_fixpoint)
  from c1 c2 c3 c4 t1 t2 t3 t4 show ?thesis by blast
qed

theorem clean_text_normal_form_witness:
  "clean_text ''  Hello,   World 42!  '' = ''hello world 42''
   \<and> clean_text_tight ''  Hello,   World 42!  '' = ''hello world''
   \<and> list_all (\<lambda>c. is_az c \<or> is_digit c \<or> c = CHR '' '') (clean_text ''  Hello,   World 42!  '')
   \<and> no_double_space (clean_text ''  Hello,   World 42!  '')
   \<and> \<not> isspace (hd (clean_text ''  Hello,   World 42!  ''))
   \<and> \<not> isspace (last (clean_text ''  Hello,   World 42!  ''))
   \<and> clean_text (clean_text ''  Hello,   World 42!  '') = clean_text ''  Hello,   World 42!  ''
   \<and> list_all (\<lambda>c. is_az c \<or> c = CHR '' '') (clean_text_tight ''  Hello,   World 42!  '')
   \<and> \<not> isspace (hd (clean_text_tight ''  Hello,   World 42!  ''))
   \<and> \<not> isspace (last (clean_text_tight ''  Hello,   World 42!  ''))
   \<and> clean_text_tight (clean_text_tight ''  Hello,   World 42!  '')
       = clean_text_tight ''  Hello,   World 42!  ''"
proof -
  have v: "clean_text ''  Hello,   World 42!  '' = ''hello world 42''" by code_simp
  have w: "clean_text_tight ''  Hello,   World 42!  '' = ''hello world''" by code_simp
  have ne: "clean_text ''  Hello,   World 42!  '' \<noteq> []"
    "clean_text_tight ''  Hello,   World 42!  '' \<noteq> []"
    by (simp_all add: v w)
  from clean_text_normal_form[of "''  Hello,   World 42!  ''"] ne v w show ?thesis
    unfolding list_all_iff by blast
qed

section \<open>Properties of the line packers\<close>

lemma split_acc_nonspace:
  "list_all (\<lambda>c. \<not> isspace c) w \<Longrightarrow> split_acc cur (w @ rest) = split_acc (cur @ w) rest"
  by (induction w arbitrary: cur) auto



lemma split_join: "\<forall>w \<in> set ws. is_word w \<Longrightarrow> split (join '' '' ws) = ws"
proof (induction "'' ''" ws rule: join.induct)
  case 1
  then show ?case by (simp add: split_def)
next
  case (2 x)
  then have "split_acc [] (x @ []) = split_acc ([] @ x) []"
    by (intro split_acc_nonspace) (simp add: is_word_def)
  with 2 show ?case by (simp add: split_def is_word_def)
next
  case (3 x y ys)
  then have x: "is_word x" and ih: "split (join '' '' (y # ys)) = y # ys" by auto
  from x have "split_acc [] (x @ '' '' @ join '' '' (y # ys))
      = split_acc ([] @ x) ('' '' @ join '' '' (y # ys))"
    by (intro split_acc_nonspace) (simp add: is_word_def)
  with x ih show ?case by (simp add: split_def is_word_def isspace_def)
qed

lemma lineate_fixed_window:
  "lineate_fixed target all_lines cur syl ws = lineate_window 1 target all_lines cur syl ws"
  by (induction ws arbitrary: all_lines cur syl) (auto simp: Let_def)

lemma lineate_window_words:
  "\<forall>w \<in> set (cur @ ws). is_word w \<Longrightarrow>
   concat (map split (lineate_window mn mx all_lines cur syl ws))
     = concat (map split all_lines) @ cur @ ws"
proof (induction ws arbitrary: all_lines cur syl)
  case Nil
  then show ?case by (simp add: split_join)
next
  case (Cons w ws)
  then have c: "split (join '' '' cur) = cur" by (intro split_join) simp
  from Cons.prems have 1: "\<forall>v \<in> set ([w] @ ws). is_word v"
    and 2: "\<forall>v \<in> set ((cur @ [w]) @ ws). is_word v" by auto
  show ?case
    using Cons.IH[OF 1] Cons.IH[OF 2] c by (simp add: Let_def)
qed

lemma lineate_random_window_words:
  "\<forall>w \<in> set (cur @ ws). is_word w \<Longrightarrow>
   concat (map split (lineate_random_window g mn mx all_lines cur syl ws))
     = concat (map split all_lines) @ cur @ ws"
proof (induction ws arbitrary: g mn mx all_lines cur syl)
  case Nil
  then show ?case by (simp add: split_join)
next
  case (Cons w ws)
  then have c: "split (join '' '' cur) = cur" by (intro split_join) simp
  from Cons.prems have 1: "\<forall>v \<in> set ([w] @ ws). is_word v"
    and 2: "\<forall>v \<in> set ((cur @ [w]) @ ws). is_word v" by auto
  show ?case
    using Cons.IH[OF 1] Cons.IH[OF 2] c by (simp add: Let_def split: prod.splits)
qed







lemma sample_loop_length: "length (fst (sample_loop g pool k)) = k"
proof (induction k arbitrary: g pool)
  case 0
  then show ?case by simp
next
  case (Suc k)
  obtain j g1 where j: "randbelow g (length pool) = (j, g1)" by (metis prod.exhaust)
  obtain rest g2 where r: "sample_loop g1 (butlast (pool[j := last pool])) k = (rest, g2)"
    by (metis prod.exhaust)
  from Suc[of g1 "butlast (pool[j := last pool])"] r have "length rest = k" by simp
  with j r show ?case by simp
qed

lemma py_int_nonneg: "0 \<le> x \<Longrightarrow> py_int x = \<lfloor>x\<rfloor>"
  by (simp add: py_int_def)

lemma sample_size_bounds:
  assumes "0 < f" "f \<le> 1" "words \<noteq> []"
  shows "sample_size words f = max 1 \<lfloor>real (length words) * f\<rfloor>"
    and "1 \<le> sample_size words f" and "sample_size words f \<le> int (length words)"
proof -
  let ?n = "length words"
  have nf: "0 \<le> real ?n * f" using assms by simp
  have ge: "0 \<le> \<lfloor>real ?n * f\<rfloor>" using nf by simp
  have "real ?n * f \<le> real ?n" using assms by (simp add: mult_left_le)
  then have le: "\<lfloor>real ?n * f\<rfloor> \<le> int ?n" by linarith
  have "(if \<lfloor>real ?n * f\<rfloor> = 0 then 1 else \<lfloor>real ?n * f\<rfloor>) = max 1 \<lfloor>real ?n * f\<rfloor>"
  proof -
    have "(if z = 0 then 1 else z) = max 1 z" if "0 \<le> z" for z :: int
      using that by auto
    from this[OF ge] show ?thesis .
  qed
  then show s: "sample_size words f = max 1 \<lfloor>real ?n * f\<rfloor>"
    using assms(3) by (simp add: sample_size_def Let_def py_int_nonneg[OF nf])
  from assms have "1 \<le> int ?n" by (cases words) auto
  with s le ge show "1 \<le> sample_size words f" "sample_size words f \<le> int ?n" by auto
qed

lemma sampled_words_count:
  assumes "0 < f" "f \<le> 1" "words \<noteq> []"
  shows "\<exists>ws g1. sampled_words g words f = Inr (ws, g1)
           \<and> int (length ws) = max 1 \<lfloor>real (length words) * f\<rfloor>"
proof -
  let ?k = "sample_size words f"
  from sample_size_bounds[OF assms]
  have k: "?k = max 1 \<lfloor>real (length words) * f\<rfloor>" "1 \<le> ?k" "?k \<le> int (length words)" by auto
  obtain ws g1 where s: "sample_loop g words (nat ?k) = (ws, g1)" by (metis prod.exhaust)
  then have "length ws = nat ?k" using sample_loop_length[of g words "nat ?k"] by simp
  with k s show ?thesis by (auto simp: sampled_words_def random_sample_def)
qed

lemma sampled_words_empty: "sampled_words g [] f = Inr ([], g)"
  by (simp add: sampled_words_def random_sample_def sample_size_def py_int_def)












text \<open>
  Claim C3.  The packers neither drop nor add a word: the words of the lines, read in
  order, are the words given, so their number and their multiset are those of the input.
\<close>

theorem pack_lines_preserves_words:
  assumes "\<forall>w \<in> set ws. is_word w"
  shows "concat (map split (lineate_fixed target [] [] 0 ws)) = ws
    \<and> sum_list (map (\<lambda>l. length (split l)) (lineate_fixed target [] [] 0 ws)) = length ws
    \<and> mset (concat (map split (lineate_fixed target [] [] 0 ws))) = mset ws
    \<and> concat (map split (lineate_window mn mx [] [] 0 ws)) = ws
    \<and> sum_list (map (\<lambda>l. length (split l)) (lineate_window mn mx [] [] 0 ws)) = length ws
    \<and> mset (concat (map split (lineate_window mn mx [] [] 0 ws))) = mset ws
    \<and> concat (map split (lines_tight g ws)) = ws
    \<and> sum_list (map (\<lambda>l. length (split l)) (lines_tight g ws)) = length ws
    \<and> mset (concat (map split (lines_tight g ws))) = mset ws"
proof -
  have w: "\<forall>w \<in> set ([] @ ws). is_word w" using assms by simp
  have c: "sum_list (map (\<lambda>l. length (split l)) ls) = length ws
      \<and> mset (concat (map split ls)) = mset ws"
    if "concat (map split ls) = ws" for ls
  proof -
    have "sum_list (map (\<lambda>l. length (split l)) ls) = length (concat (map split ls))"
      by (simp add: length_concat comp_def)
    with that show ?thesis by simp
  qed
  have 1: "concat (map split (lineate_fixed target [] [] 0 ws)) = ws"
    unfolding lineate_fixed_window using lineate_window_words[OF w] by simp
  have 2: "concat (map split (lineate_window mn mx [] [] 0 ws)) = ws"
    using lineate_window_words[OF w] by simp
  obtain mn1 mx1 g1 where l: "get_random_line_syllable_limits g = ((mn1, mx1), g1)"
    by (metis prod.exhaust)
  have 3: "concat (map split (lines_tight g ws)) = ws"
    using lineate_random_window_words[OF w] l by (simp add: lines_tight_def)
  from 1 2 3 c[OF 1] c[OF 2] c[OF 3] show ?thesis by blast
qed

theorem pack_lines_preserves_words_witness:
  "list_all is_word [''the'', ''quick'', ''brown'', ''fox'', ''jumps'']
   \<and> lineate_fixed 2 [] [] 0 [''the'', ''quick'', ''brown'', ''fox'', ''jumps'']
       = [''the quick'', ''brown fox'', ''jumps'']
   \<and> sum_list (map (\<lambda>l. length (split l))
        (lineate_fixed 2 [] [] 0 [''the'', ''quick'', ''brown'', ''fox'', ''jumps''])) = 5
   \<and> mset (concat (map split
        (lineate_window 2 3 [] [] 0 [''the'', ''quick'', ''brown'', ''fox'', ''jumps''])))
       = mset [''the'', ''quick'', ''brown'', ''fox'', ''jumps'']
   \<and> mset (concat (map split (lines_tight (\<lambda>_. 0) [''the'', ''quick'', ''brown'', ''fox'', ''jumps''])))
       = mset [''the'', ''quick'', ''brown'', ''fox'', ''jumps'']"
proof -
  have h: "\<forall>w \<in> set [''the'', ''quick'', ''brown'', ''fox'', ''jumps'']. is_word w"
    by (simp add: is_word_def isspace_def)
  have v: "lineate_fixed 2 [] [] 0 [''the'', ''quick'', ''brown'', ''fox'', ''jumps'']
       = [''the quick'', ''brown fox'', ''jumps'']"
    by code_simp
  from pack_lines_preserves_words[OF h, of 2 2 3 "\<lambda>_. 0"] h v show ?thesis
    unfolding list_all_iff by simp
qed






text \<open>
  Claim C1 and chop.py.  The first script has no lower bound on the number of words
  kept: of three words at a fraction of 3/10 it keeps none, where the claim has
  \<open>max(1, floor(3 * 0.3)) = 1\<close>.
\<close>

theorem chop_sampler_keeps_no_word:
  "sampled_words_chop g [''a'', ''b'', ''c''] (3 / 10) = Inr ([], g)
   \<and> max 1 \<lfloor>real (length [''a'', ''b'', ''c'']) * (3 / 10)\<rfloor> = (1::int)
   \<and> randomly_reduce_and_lineate_text_chop g ''a b c'' (3 / 10) = Inr []"
proof -
  have k: "sample_size_chop [''a'', ''b'', ''c''] (3 / 10) = 0"
    by (simp add: sample_size_chop_def py_int_def)
  have s: "sampled_words_chop g [''a'', ''b'', ''c''] (3 / 10) = Inr ([], g)"
    by (simp add: sampled_words_chop_def k random_sample_def)
  have w: "split ''a b c'' = [''a'', ''b'', ''c'']" by code_simp
  have "randomly_reduce_and_lineate_text_chop g ''a b c'' (3 / 10) = Inr []"
    unfolding randomly_reduce_and_lineate_text_chop_def w Let_def s
    by (simp add: lineate_word_count.simps)
  with s show ?thesis by simp
qed

section \<open>Properties of the retention calculator\<close>

lemma random_unit: "0 \<le> fst (random g) \<and> fst (random g) < 1"
  by (simp add: random_def)

lemma uniform_between:
  assumes "a \<le> b"
  shows "a \<le> fst (uniform g a b) \<and> fst (uniform g a b) \<le> b"
proof -
  obtain u g1 where r: "random g = (u, g1)" by (metis prod.exhaust)
  with random_unit[of g] have u: "0 \<le> u" "u < 1" by auto
  have v: "fst (uniform g a b) = a + (b - a) * u" by (simp add: uniform_def r)
  from assms u have "0 \<le> (b - a) * u" by simp
  moreover from assms u have "(b - a) * u \<le> (b - a) * 1"
    by (intro mult_left_mono) auto
  ultimately show ?thesis unfolding v by simp
qed

lemma length_factor_unit: "0 \<le> length_factor n \<and> length_factor n \<le> 1"
  by (simp add: length_factor_def Let_def)

lemma length_factor_mono: "n \<le> m \<Longrightarrow> length_factor n \<le> length_factor m"
proof -
  assume "n \<le> m"
  then have "(real_of_int n - REFERENCE_SHORT_LENGTH) / (REFERENCE_LONG_LENGTH - REFERENCE_SHORT_LENGTH)
      \<le> (real_of_int m - REFERENCE_SHORT_LENGTH) / (REFERENCE_LONG_LENGTH - REFERENCE_SHORT_LENGTH)"
    by (simp add: REFERENCE_SHORT_LENGTH_def REFERENCE_LONG_LENGTH_def divide_right_mono)
  then show ?thesis unfolding length_factor_def Let_def by (simp add: max_def min_def)
qed

lemma length_factor_short: "n \<le> 1000 \<Longrightarrow> length_factor n = 0"
  by (simp add: length_factor_def Let_def REFERENCE_SHORT_LENGTH_def REFERENCE_LONG_LENGTH_def
      max_def min_def)

lemma length_factor_long: "20000 \<le> n \<Longrightarrow> length_factor n = 1"
  by (simp add: length_factor_def Let_def REFERENCE_SHORT_LENGTH_def REFERENCE_LONG_LENGTH_def
      max_def min_def)

text \<open>Interpolation from \<open>s\<close> down to \<open>l\<close>.\<close>

lemma lerp_between:
  fixes s l t :: real
  assumes "l \<le> s" "0 \<le> t" "t \<le> 1"
  shows "l \<le> s * (1 - t) + l * t" and "s * (1 - t) + l * t \<le> s"
proof -
  have e: "s * (1 - t) + l * t = s - (s - l) * t" by (simp add: algebra_simps)
  from assms have "0 \<le> (s - l) * t" by simp
  moreover from assms have "(s - l) * t \<le> (s - l) * 1" by (intro mult_left_mono) auto
  ultimately show "l \<le> s * (1 - t) + l * t" "s * (1 - t) + l * t \<le> s" unfolding e by auto
qed

lemma lerp_antimono:
  fixes s l t u :: real
  assumes "l \<le> s" "t \<le> u"
  shows "s * (1 - u) + l * u \<le> s * (1 - t) + l * t"
proof -
  have e: "s * (1 - x) + l * x = s - (s - l) * x" for x by (simp add: algebra_simps)
  from assms have "(s - l) * t \<le> (s - l) * u" by (intro mult_left_mono) auto
  then show ?thesis unfolding e by simp
qed

lemma lerp_order:
  fixes a b c d t :: real
  assumes "a \<le> b" "c \<le> d" "0 \<le> t" "t \<le> 1"
  shows "a * (1 - t) + c * t \<le> b * (1 - t) + d * t"
proof -
  from assms have "a * (1 - t) \<le> b * (1 - t)" by (intro mult_right_mono) auto
  moreover from assms have "c * t \<le> d * t" by (intro mult_right_mono) auto
  ultimately show ?thesis by simp
qed

lemma ranges_ordered:
  assumes "c \<in> {chop_ranges, broken_sentences_ranges, tight_ranges}"
  shows "SHORT_TEXT_MIN_KEEP c \<le> SHORT_TEXT_MAX_KEEP c"
    and "LONG_TEXT_MIN_KEEP c \<le> LONG_TEXT_MAX_KEEP c"
    and "LONG_TEXT_MIN_KEEP c \<le> SHORT_TEXT_MIN_KEEP c"
    and "LONG_TEXT_MAX_KEEP c \<le> SHORT_TEXT_MAX_KEEP c"
  using assms by (auto simp: chop_ranges_def broken_sentences_ranges_def tight_ranges_def)

text \<open>
  Claim C5.  With the keep constants of any of the scripts and no fixed value, the
  fraction drawn lies between the two bounds interpolated for the text length.  Both
  bounds fall (weakly) as the length grows, stay between the long-text and the short-text
  value, equal the short-text value up to 1000 characters and the long-text value from
  20000 characters on.
\<close>

theorem retention_within_bounds:
  assumes "c \<in> {chop_ranges, broken_sentences_ranges, tight_ranges}"
  shows "current_min_keep c n \<le> fst (calculate_biased_retention c g n None)
    \<and> fst (calculate_biased_retention c g n None) \<le> current_max_keep c n
    \<and> (n \<le> m \<longrightarrow> current_min_keep c m \<le> current_min_keep c n
                  \<and> current_max_keep c m \<le> current_max_keep c n)
    \<and> LONG_TEXT_MIN_KEEP c \<le> current_min_keep c n
    \<and> current_min_keep c n \<le> SHORT_TEXT_MIN_KEEP c
    \<and> LONG_TEXT_MAX_KEEP c \<le> current_max_keep c n
    \<and> current_max_keep c n \<le> SHORT_TEXT_MAX_KEEP c
    \<and> (n \<le> 1000 \<longrightarrow> current_min_keep c n = SHORT_TEXT_MIN_KEEP c
                      \<and> current_max_keep c n = SHORT_TEXT_MAX_KEEP c)
    \<and> (20000 \<le> n \<longrightarrow> current_min_keep c n = LONG_TEXT_MIN_KEEP c
                      \<and> current_max_keep c n = LONG_TEXT_MAX_KEEP c)"
proof -
  note o = ranges_ordered[OF assms]
  note u = length_factor_unit[of n]
  have le: "current_min_keep c n \<le> current_max_keep c n"
    unfolding current_min_keep_def current_max_keep_def
    using o(1,2) u by (intro lerp_order) auto
  have d: "current_min_keep c n \<le> fst (calculate_biased_retention c g n None)
      \<and> fst (calculate_biased_retention c g n None) \<le> current_max_keep c n"
    using uniform_between[OF le] by (simp add: calculate_biased_retention_def)
  have mono: "current_min_keep c m \<le> current_min_keep c n
      \<and> current_max_keep c m \<le> current_max_keep c n" if "n \<le> m"
    unfolding current_min_keep_def current_max_keep_def
    using o(3,4) length_factor_mono[OF that] lerp_antimono by blast
  have b: "LONG_TEXT_MIN_KEEP c \<le> current_min_keep c n"
    "current_min_keep c n \<le> SHORT_TEXT_MIN_KEEP c"
    "LONG_TEXT_MAX_KEEP c \<le> current_max_keep c n"
    "current_max_keep c n \<le> SHORT_TEXT_MAX_KEEP c"
    unfolding current_min_keep_def current_max_keep_def
    using o(3,4) u lerp_between by blast+
  have s: "current_min_keep c n = SHORT_TEXT_MIN_KEEP c
      \<and> current_max_keep c n = SHORT_TEXT_MAX_KEEP c" if "n \<le> 1000"
    by (simp add: current_min_keep_def current_max_keep_def length_factor_short[OF that])
  have l: "current_min_keep c n = LONG_TEXT_MIN_KEEP c
      \<and> current_max_keep c n = LONG_TEXT_MAX_KEEP c" if "20000 \<le> n"
    by (simp add: current_min_keep_def current_max_keep_def length_factor_long[OF that])
  from d mono b s l show ?thesis by blast
qed

theorem retention_within_bounds_witness:
  "broken_sentences_ranges \<in> {chop_ranges, broken_sentences_ranges, tight_ranges}
   \<and> current_min_keep broken_sentences_ranges 10500 = 9 / 200
   \<and> current_max_keep broken_sentences_ranges 10500 = 6 / 100
   \<and> 9 / 200 \<le> fst (calculate_biased_retention broken_sentences_ranges (\<lambda>_. 0) 10500 None)
   \<and> fst (calculate_biased_retention broken_sentences_ranges (\<lambda>_. 0) 10500 None) \<le> 6 / 100
   \<and> (10500::int) \<le> 20000
   \<and> current_min_keep broken_sentences_ranges 20000 \<le> current_min_keep broken_sentences_ranges 10500
   \<and> current_max_keep broken_sentences_ranges 20000 \<le> current_max_keep broken_sentences_ranges 10500
   \<and> current_min_keep broken_sentences_ranges 20000 = 1 / 100
   \<and> current_max_keep broken_sentences_ranges 20000 = 2 / 100
   \<and> (500::int) \<le> 1000
   \<and> current_min_keep broken_sentences_ranges 500 = 8 / 100
   \<and> current_max_keep broken_sentences_ranges 500 = 10 / 100"
proof -
  have h: "broken_sentences_ranges \<in> {chop_ranges, broken_sentences_ranges, tight_ranges}"
    by simp
  have f: "length_factor 10500 = 1 / 2"
    by (simp add: length_factor_def Let_def REFERENCE_SHORT_LENGTH_def REFERENCE_LONG_LENGTH_def)
  have a: "current_min_keep broken_sentences_ranges 10500 = 9 / 200"
    "current_max_keep broken_sentences_ranges 10500 = 6 / 100"
    by (simp_all add: current_min_keep_def current_max_keep_def f broken_sentences_ranges_def)
  have v: "SHORT_TEXT_MIN_KEEP broken_sentences_ranges = 8 / 100"
    "SHORT_TEXT_MAX_KEEP broken_sentences_ranges = 10 / 100"
    "LONG_TEXT_MIN_KEEP broken_sentences_ranges = 1 / 100"
    "LONG_TEXT_MAX_KEEP broken_sentences_ranges = 2 / 100"
    by (simp_all add: broken_sentences_ranges_def)
  have o: "(10500::int) \<le> 20000" "(500::int) \<le> 1000" "(20000::int) \<le> 20000" by simp_all
  from retention_within_bounds[OF h, of 10500 "\<lambda>_. 0" 20000]
    retention_within_bounds[OF h, of 20000 "\<lambda>_. 0" 20000]
    retention_within_bounds[OF h, of 500 "\<lambda>_. 0" 500]
    h o
  show ?thesis unfolding a v by blast
qed

section \<open>Fixed retention and empty input\<close>





text \<open>
  Claim C6, as the code has it.  The normalizer maps the empty text to the empty text.
  On a text without words no function raises: \<open>create_broken_sentence_text\<close> of both
  scripts returns the empty text before it samples, chop.py samples no word, packs no
  line and returns the empty text, and the chop2 scripts return a notice in parentheses.
  On no words the sampler returns no words and the packers no lines, which join to the
  empty text.
\<close>

theorem empty_input:
  "clean_text [] = [] \<and> clean_text_tight [] = [] \<and> split [] = []
   \<and> (split t = [] \<longrightarrow>
         create_broken_sentence_text g t p mn mx = Inr []
       \<and> create_broken_sentence_text_tight g t p = Inr []
       \<and> randomly_reduce_and_lineate_text_chop g t p = Inr []
       \<and> randomly_reduce_and_lineate_text_chop2 g t p = Inr ''(The source file was empty.)''
       \<and> randomly_reduce_and_lineate_text g t p
           = Inr ''(The source file was empty or had no words after cleaning.)'')
   \<and> process_file g [] fixed = Inr None
   \<and> sampled_words g [] p = Inr ([], g) \<and> sampled_words_chop g [] p = Inr ([], g)
   \<and> lineate_word_count g [] 0 [] = []
   \<and> lineate_fixed target [] [] 0 [] = []
   \<and> lineate_window mn mx [] [] 0 [] = []
   \<and> lines_tight g [] = []
   \<and> join newline [] = []"
proof -
  have c: "clean_text [] = []" "clean_text_tight [] = []" "split [] = []"
    by (simp_all add: clean_text_def clean_text_tight_def lower_def strip_def lstrip_def
        rstrip_def split_def)
  have s: "sampled_words g [] p = Inr ([], g)" "sampled_words_chop g [] p = Inr ([], g)"
    by (simp_all add: sampled_words_def sampled_words_chop_def random_sample_def
        sample_size_def sample_size_chop_def py_int_def)
  have w: "lineate_word_count g [] 0 [] = []" for g
    by (simp add: lineate_word_count.simps)
  have l: "lines_tight g [] = []"
    by (simp add: lines_tight_def split: prod.splits)
  have f: "create_broken_sentence_text g t p mn mx = Inr []
       \<and> create_broken_sentence_text_tight g t p = Inr []
       \<and> randomly_reduce_and_lineate_text_chop g t p = Inr []
       \<and> randomly_reduce_and_lineate_text_chop2 g t p = Inr ''(The source file was empty.)''
       \<and> randomly_reduce_and_lineate_text g t p
           = Inr ''(The source file was empty or had no words after cleaning.)''"
    if "split t = []"
    using that s w
    by (simp add: create_broken_sentence_text_def create_broken_sentence_text_tight_def
        randomly_reduce_and_lineate_text_chop_def randomly_reduce_and_lineate_text_chop2_def
        randomly_reduce_and_lineate_text_def)
  have pf: "process_file g [] fixed = Inr None"
    by (simp add: process_file_def c strip_def lstrip_def rstrip_def)
  from c s w l f pf show ?thesis by simp
qed

theorem empty_input_witness:
  "split ''  '' = []
   \<and> create_broken_sentence_text (\<lambda>_. 0) ''  '' (1 / 10) 6 12 = Inr []
   \<and> create_broken_sentence_text_tight (\<lambda>_. 0) ''  '' (1 / 10) = Inr []
   \<and> randomly_reduce_and_lineate_text_chop (\<lambda>_. 0) ''  '' (1 / 10) = Inr []
   \<and> randomly_reduce_and_lineate_text_chop2 (\<lambda>_. 0) ''  '' (1 / 10)
       = Inr ''(The source file was empty.)''
   \<and> randomly_reduce_and_lineate_text (\<lambda>_. 0) ''  '' (1 / 10)
       = Inr ''(The source file was empty or had no words after cleaning.)''"
proof -
  have h: "split ''  '' = []" by code_simp
  from empty_input[of "''  ''" "\<lambda>_. 0" "1 / 10" 6 12] h show ?thesis by blast
qed

theorem empty_input_counterexample:
  "randomly_reduce_and_lineate_text_chop2 (\<lambda>_. 0) [] (1 / 10) = Inr ''(The source file was empty.)''
   \<and> randomly_reduce_and_lineate_text (\<lambda>_. 0) (clean_text []) (1 / 10)
       = Inr ''(The source file was empty or had no words after cleaning.)''
   \<and> ''(The source file was empty.)'' \<noteq> []"
  by (simp add: randomly_reduce_and_lineate_text_chop2_def randomly_reduce_and_lineate_text_def
      split_def clean_text_def lower_def strip_def lstrip_def rstrip_def)

section \<open>Properties of the obfuscated words\<close>

lemma b64chars_length: "length b64chars = 64" by (simp add: b64chars_def)
lemma b64chars_distinct: "distinct b64chars" by (simp add: b64chars_def)
lemma b64chars_no_pad: "CHR ''='' \<notin> set b64chars" by (simp add: b64chars_def)

lemma b64char_not_pad: "i < 64 \<Longrightarrow> b64char i \<noteq> CHR ''=''"
  unfolding b64char_def using b64chars_no_pad b64chars_length by (metis nth_mem)

lemma b64index_b64char: "i < 64 \<Longrightarrow> b64index (b64char i) = i"
proof -
  assume i: "i < 64"
  have "takeWhile (\<lambda>x. x \<noteq> b64chars ! i) b64chars = take i b64chars"
  proof (rule takeWhile_eq_take_P_nth)
    fix j assume "j < i" "j < length b64chars"
    with i show "b64chars ! j \<noteq> b64chars ! i"
      using b64chars_distinct b64chars_length by (simp add: nth_eq_iff_index_eq)
  next
    show "\<not> b64chars ! i \<noteq> b64chars ! i" by simp
  qed
  with i show ?thesis by (simp add: b64index_def b64char_def b64chars_length)
qed

lemma div_lt_add: "(x::nat) < m \<Longrightarrow> (k * m + x) div m = k"
  by simp
lemma mod_lt_add: "(x::nat) < m \<Longrightarrow> (k * m + x) mod m = x"
  by simp

lemma q16: "(b::nat) < 256 \<Longrightarrow> b div 16 < 16" by simp
lemma q64: "(c::nat) < 256 \<Longrightarrow> c div 64 < 4" by simp
lemma q4: "(a::nat) < 256 \<Longrightarrow> a div 4 < 64" by simp

lemma lin1: "(r::nat) < 4 \<Longrightarrow> q < 16 \<Longrightarrow> r * 16 + q < 64" by linarith
lemma lin2: "(r::nat) < 16 \<Longrightarrow> q < 4 \<Longrightarrow> r * 4 + q < 64" by linarith
lemma lin3: "(r::nat) < 4 \<Longrightarrow> r * 16 < 64" by linarith
lemma lin4: "(r::nat) < 16 \<Longrightarrow> r * 4 < 64" by linarith

lemma sextet_bounds:
  fixes a b c :: nat
  assumes "a < 256" "b < 256" "c < 256"
  shows "a div 4 < 64" "(a mod 4) * 16 + b div 16 < 64" "(b mod 16) * 4 + c div 64 < 64"
    "c mod 64 < 64" "(a mod 4) * 16 < 64" "(b mod 16) * 4 < 64"
proof -
  have a: "a mod 4 < 4" and b: "b mod 16 < 16" by simp_all
  from assms(1) show "a div 4 < 64" by (rule q4)
  from a q16[OF assms(2)] show "(a mod 4) * 16 + b div 16 < 64" by (rule lin1)
  from b q64[OF assms(3)] show "(b mod 16) * 4 + c div 64 < 64" by (rule lin2)
  show "c mod 64 < 64" by simp
  from a show "(a mod 4) * 16 < 64" by (rule lin3)
  from b show "(b mod 16) * 4 < 64" by (rule lin4)
qed

lemma sextet_bytes:
  fixes a b c :: nat
  assumes "a < 256" "b < 256" "c < 256"
  shows "a div 4 * 4 + ((a mod 4) * 16 + b div 16) div 16 = a"
    and "(((a mod 4) * 16 + b div 16) mod 16) * 16 + ((b mod 16) * 4 + c div 64) div 4 = b"
    and "(((b mod 16) * 4 + c div 64) mod 4) * 64 + c mod 64 = c"
    and "a div 4 * 4 + ((a mod 4) * 16) div 16 = a"
    and "(((a mod 4) * 16 + b div 16) mod 16) * 16 + ((b mod 16) * 4) div 4 = b"
proof -
  note b16 = q16[OF assms(2)] and c64 = q64[OF assms(3)]
  have 1: "((a mod 4) * 16 + b div 16) div 16 = a mod 4" using b16 by (rule div_lt_add)
  have 2: "((a mod 4) * 16 + b div 16) mod 16 = b div 16" using b16 by (rule mod_lt_add)
  have 3: "((b mod 16) * 4 + c div 64) div 4 = b mod 16" using c64 by (rule div_lt_add)
  have 4: "((b mod 16) * 4 + c div 64) mod 4 = c div 64" using c64 by (rule mod_lt_add)
  have 5: "((a mod 4) * 16) div 16 = a mod 4" by (rule nonzero_mult_div_cancel_right) simp
  have 6: "((b mod 16) * 4) div 4 = b mod 16" by (rule nonzero_mult_div_cancel_right) simp
  show "a div 4 * 4 + ((a mod 4) * 16 + b div 16) div 16 = a"
    unfolding 1 by (rule div_mult_mod_eq)
  show "(((a mod 4) * 16 + b div 16) mod 16) * 16 + ((b mod 16) * 4 + c div 64) div 4 = b"
    unfolding 2 3 by (rule div_mult_mod_eq)
  show "(((b mod 16) * 4 + c div 64) mod 4) * 64 + c mod 64 = c"
    unfolding 4 by (rule div_mult_mod_eq)
  show "a div 4 * 4 + ((a mod 4) * 16) div 16 = a" unfolding 5 by (rule div_mult_mod_eq)
  show "(((a mod 4) * 16 + b div 16) mod 16) * 16 + ((b mod 16) * 4) div 4 = b"
    unfolding 2 6 by (rule div_mult_mod_eq)
qed

lemma dec_tail_1:
  assumes "d < 256"
  shows "b64decode (take 2 (b64encode [d])) = [d]"
  by (simp add: b64index_b64char sextet_bounds[OF assms assms assms]
      sextet_bytes(4)[OF assms assms assms])

lemma dec_tail_2:
  assumes "d < 256" "e < 256"
  shows "b64decode (take 3 (b64encode [d, e])) = [d, e]"
  by (simp add: b64index_b64char b64char_not_pad sextet_bounds[OF assms assms(2)]
      q16[OF assms(2)])

lemma dec_enc_1:
  assumes "a < 256"
  shows "b64decode (take 3 (b64encode [a])) = [a]"
  by (simp add: b64index_b64char sextet_bounds[OF assms assms assms]
      sextet_bytes(4)[OF assms assms assms])

lemma dec_enc_2:
  assumes "a < 256" "b < 256"
  shows "b64decode (take 4 (b64encode [a, b])) = [a, b]"
  by (simp add: b64index_b64char b64char_not_pad sextet_bounds[OF assms assms(2)]
      q16[OF assms(2)])

lemma dec_quad:
  assumes "a < 256" "b < 256" "c < 256"
  shows "b64decode (b64encode [a, b, c] @ rest) = [a, b, c] @ b64decode rest"
  by (simp add: b64index_b64char b64char_not_pad sextet_bounds[OF assms]
      q16[OF assms(2)] q64[OF assms(3)])

lemma dec_enc_3:
  assumes "a < 256" "b < 256" "c < 256"
  shows "b64decode (take 5 (b64encode [a, b, c])) = [a, b, c]"
proof -
  have t: "take 5 (b64encode [a, b, c]) = b64encode [a, b, c] @ []" by simp
  show ?thesis unfolding t dec_quad[OF assms] by simp
qed

lemma dec_enc_4:
  assumes "a < 256" "b < 256" "c < 256" "d < 256"
  shows "b64decode (take 6 (b64encode [a, b, c, d])) = [a, b, c, d]"
proof -
  have t: "take 6 (b64encode [a, b, c, d]) = b64encode [a, b, c] @ take 2 (b64encode [d])"
    by simp
  show ?thesis unfolding t dec_quad[OF assms(1,2,3)] dec_tail_1[OF assms(4)] by simp
qed

lemma dec_enc_5:
  assumes "a < 256" "b < 256" "c < 256" "d < 256" "e < 256"
  shows "b64decode (take 7 (b64encode [a, b, c, d, e])) = [a, b, c, d, e]"
proof -
  have t: "take 7 (b64encode [a, b, c, d, e]) = b64encode [a, b, c] @ take 3 (b64encode [d, e])"
    by simp
  show ?thesis unfolding t dec_quad[OF assms(1,2,3)] dec_tail_2[OF assms(4,5)] by simp
qed

lemma dec_enc_6:
  assumes "a < 256" "b < 256" "c < 256" "d < 256" "e < 256" "f < 256"
  shows "b64decode (take 8 (b64encode [a, b, c, d, e, f])) = [a, b, c, d, e, f]"
proof -
  have t: "take 8 (b64encode [a, b, c, d, e, f]) = b64encode [a, b, c] @ b64encode [d, e, f] @ []"
    by simp
  show ?thesis
    unfolding t dec_quad[OF assms(1,2,3)] dec_quad[OF assms(4,5,6)] by simp
qed

lemma short_list_cases:
  assumes "length (bs::'a list) \<le> 6"
  obtains "bs = []" | a where "bs = [a]" | a b where "bs = [a, b]"
    | a b c where "bs = [a, b, c]" | a b c d where "bs = [a, b, c, d]"
    | a b c d e where "bs = [a, b, c, d, e]" | a b c d e f where "bs = [a, b, c, d, e, f]"
proof -
  from assms have "length bs = 0 \<or> length bs = 1 \<or> length bs = 2 \<or> length bs = 3
      \<or> length bs = 4 \<or> length bs = 5 \<or> length bs = 6" by linarith
  then show ?thesis using that
    by (auto simp: length_Suc_conv eval_nat_numeral)
qed

lemma dec_enc_bytes:
  assumes "length bs \<le> 6" "\<forall>b \<in> set bs. b < 256"
  shows "b64decode (take (length bs + 2) (b64encode bs)) = bs"
    and "bs \<noteq> [] \<Longrightarrow> length bs < length (b64encode bs)"
proof -
  from assms(1) show "b64decode (take (length bs + 2) (b64encode bs)) = bs"
  proof (cases bs rule: short_list_cases)
    case 1
    then show ?thesis by simp
  next
    case (2 a)
    with assms(2) dec_enc_1[of a] show ?thesis by simp
  next
    case (3 a b)
    with assms(2) dec_enc_2[of a b] show ?thesis by simp
  next
    case (4 a b c)
    with assms(2) dec_enc_3[of a b c] show ?thesis by simp
  next
    case (5 a b c d)
    with assms(2) dec_enc_4[of a b c d] show ?thesis by simp
  next
    case (6 a b c d e)
    with assms(2) dec_enc_5[of a b c d e] show ?thesis by simp
  next
    case (7 a b c d e f)
    with assms(2) dec_enc_6[of a b c d e f] show ?thesis by simp
  qed
  from assms(1) show "length bs < length (b64encode bs)" if "bs \<noteq> []"
    using that by (cases bs rule: short_list_cases) simp_all
qed

lemma utf8_encode_ascii: "is_ascii w \<Longrightarrow> utf8_encode w = map of_char w"
  unfolding is_ascii_def utf8_encode_def
  by (induction w) (auto simp: Let_def)

lemma decrypt_encrypt:
  assumes "is_ascii w" "length w \<le> 6"
  shows "decrypt_word (encrypt_word w) = w"
proof (cases "w = []")
  case True
  then show ?thesis by (simp add: encrypt_word_def decrypt_word_def)
next
  case False
  let ?bs = "map of_char w :: nat list"
  have u: "utf8_encode w = ?bs" using assms(1) by (rule utf8_encode_ascii)
  have len: "length ?bs \<le> 6" using assms(2) by simp
  have bnd: "\<forall>b \<in> set ?bs. b < 256" using assms(1) by (auto simp: is_ascii_def list_all_iff)
  from False have ne: "?bs \<noteq> []" by simp
  from dec_enc_bytes(2)[OF len bnd ne] have l: "length w < length (b64encode ?bs)" by simp
  from dec_enc_bytes(1)[OF len bnd]
  have d: "b64decode (take (length w + 2) (b64encode ?bs)) = ?bs" by simp
  from False l have e: "encrypt_word w = take (length w + 2) (b64encode ?bs)"
    by (simp add: encrypt_word_def u Let_def)
  have "decrypt_word (encrypt_word w) = map char_of ?bs"
    unfolding decrypt_word_def e d ..
  then show ?thesis by (simp add: comp_def)
qed


text \<open>
  Claim C9, as the code has it.  The obfuscated form is the base64 text of the word cut
  to two characters more than the word has.  For a word of at most six ASCII characters
  (the words of the flicker output are made of the letters a to z) the cut text still
  decodes to the word, so no two such words share an obfuscated form; the empty word
  maps to the empty text.
\<close>

theorem encrypt_word_reversible_up_to_six:
  "(is_ascii w \<and> length w \<le> 6 \<longrightarrow> decrypt_word (encrypt_word w) = w)
   \<and> (is_ascii w \<and> length w \<le> 6 \<and> is_ascii v \<and> length v \<le> 6
        \<and> encrypt_word w = encrypt_word v \<longrightarrow> w = v)
   \<and> encrypt_word [] = []"
proof -
  have d: "decrypt_word (encrypt_word w) = w" if "is_ascii w \<and> length w \<le> 6"
    using that decrypt_encrypt by blast
  have i: "w = v"
    if "is_ascii w \<and> length w \<le> 6 \<and> is_ascii v \<and> length v \<le> 6
        \<and> encrypt_word w = encrypt_word v"
  proof -
    from that have 1: "decrypt_word (encrypt_word w) = w" using decrypt_encrypt by blast
    from that have 2: "decrypt_word (encrypt_word v) = v" using decrypt_encrypt by blast
    from that have 3: "encrypt_word w = encrypt_word v" by blast
    from 1 2 3 show ?thesis by metis
  qed
  have e: "encrypt_word [] = []" by (simp add: encrypt_word_def)
  from d i e show ?thesis by blast
qed

theorem encrypt_word_reversible_up_to_six_witness:
  "is_ascii ''poem'' \<and> length ''poem'' \<le> 6
   \<and> encrypt_word ''poem'' = ''cG9lbQ''
   \<and> decrypt_word (encrypt_word ''poem'') = ''poem''"
proof -
  have h: "is_ascii ''poem'' \<and> length ''poem'' \<le> 6" by (simp add: is_ascii_def)
  have e: "encrypt_word ''poem'' = ''cG9lbQ''" by code_simp
  from encrypt_word_reversible_up_to_six[of "''poem''"] h e show ?thesis by blast
qed

theorem encrypt_word_counterexample:
  "encrypt_word ''aaaaaaa'' = encrypt_word ''aaaaaab'' \<and> ''aaaaaaa'' \<noteq> ''aaaaaab''"
proof -
  have "encrypt_word ''aaaaaaa'' = ''YWFhYWFhY''" by code_simp
  moreover have "encrypt_word ''aaaaaab'' = ''YWFhYWFhY''" by code_simp
  ultimately show ?thesis by simp
qed

end
